theory Spec2Isabelle
  imports Main "HOL-Library.AList" "HOL-Library.Multiset"
begin

section \<open>The goodbye package: data model\<close>

text \<open>
  The package keeps its state in package-level variables. The model collects them in one
  record and passes it through every function. Go's \<^verbatim>\<open>int\<close> is modelled by \<^typ>\<open>int\<close>:
  the package only compares, sorts and stores integers, it never does arithmetic on them.
\<close>

text \<open>
  \<^verbatim>\<open>os.Signal\<close> is an interface. Its values are the nil interface, the package's own
  \<^verbatim>\<open>noSig{}\<close> (an empty struct, so all its values are equal) and the operating system's
  signals \<^verbatim>\<open>syscall.Signal(n)\<close>.
\<close>

datatype sigval = noSig | Signal int

type_synonym os_Signal = "sigval option"

definition noSigVal :: os_Signal where
  "noSigVal = Some noSig"

text \<open>A Go map: the nil map reads as empty and panics on assignment.\<close>

datatype panic = AssignmentToEntryInNilMap

type_synonym ('k, 'v) gomap = "('k \<times> 'v) list option"

definition lookup :: "('k, 'v) gomap \<Rightarrow> 'k \<Rightarrow> 'v option" where
  "lookup m k = (case m of None \<Rightarrow> None | Some al \<Rightarrow> map_of al k)"

definition assign :: "('k, 'v) gomap \<Rightarrow> 'k \<Rightarrow> 'v \<Rightarrow> panic + ('k, 'v) gomap" where
  "assign m k v = (case m of None \<Rightarrow> Inl AssignmentToEntryInNilMap
                    | Some al \<Rightarrow> Inr (Some (AList.update k v al)))"

definition range_keys :: "('k, 'v) gomap \<Rightarrow> 'k list" where
  "range_keys m = (case m of None \<Rightarrow> [] | Some al \<Rightarrow> map fst al)"

text \<open>The state of \<^verbatim>\<open>sync.Once\<close>: not yet used, running its function (its mutex is held), done.\<close>

datatype Once = Idle | Running | Done

record ('c, 'h) state =
  ExitCode :: int
  handlers :: "(int, 'h list) gomap"
  defaultSignals :: "(os_Signal \<times> int) list"
  notified :: "os_Signal list"
  once :: Once
  trapped :: "int set"
  listeners :: "('c \<times> (os_Signal \<times> int) list) list"
  calls :: "('h \<times> 'c \<times> os_Signal) list"
  exited :: "int option"

text \<open>
  The last four fields are the world around the package: \<open>trapped\<close> is the set of signal
  numbers that \<^verbatim>\<open>os/signal\<close> has been asked to relay to channels (what of these the
  operating system lets a process catch is not the package's business), \<open>listeners\<close> the goroutines started by
  \<^verbatim>\<open>Notify\<close> with the context and the signal map each one captured, \<open>calls\<close> the exit handlers
  invoked so far with their arguments, oldest first, and \<open>exited\<close> the status given to
  \<^verbatim>\<open>os.Exit\<close>. An exit handler is an opaque value of type \<open>'h\<close>; calling it is recorded.
\<close>

section \<open>Registration\<close>

definition RegisterWithPriority ::
  "'h \<Rightarrow> int \<Rightarrow> ('c, 'h) state \<Rightarrow> panic + ('c, 'h) state" where
  "RegisterWithPriority f priority st =
     (case (case lookup (handlers st) priority of
              None \<Rightarrow> assign (handlers st) priority [f]
            | Some a \<Rightarrow> assign (handlers st) priority (a @ [f])) of
        Inl e \<Rightarrow> Inl e
      | Inr m \<Rightarrow> Inr (st\<lparr>handlers := m\<rparr>))"

definition Register :: "'h \<Rightarrow> ('c, 'h) state \<Rightarrow> panic + ('c, 'h) state" where
  "Register f st = RegisterWithPriority f 0 st"

definition IsNormalExit :: "os_Signal \<Rightarrow> bool" where
  "IsNormalExit sig = (sig = noSigVal)"

section \<open>The drain and the gate\<close>

definition invoke :: "'c \<Rightarrow> os_Signal \<Rightarrow> ('c, 'h) state \<Rightarrow> 'h \<Rightarrow> ('c, 'h) state" where
  "invoke ctx s st h = st\<lparr>calls := calls st @ [(h, ctx, s)]\<rparr>"

definition bucket :: "(int, 'h list) gomap \<Rightarrow> int \<Rightarrow> 'h list" where
  "bucket m k = (case lookup m k of None \<Rightarrow> [] | Some a \<Rightarrow> a)"

definition handle :: "'c \<Rightarrow> os_Signal \<Rightarrow> ('c, 'h) state \<Rightarrow> ('c, 'h) state" where
  "handle ctx s st =
     (let keys = foldl (\<lambda>keys k. keys @ [k]) [] (range_keys (handlers st));
          keys = sort keys
      in foldl (\<lambda>st k. foldl (invoke ctx s) st (bucket (handlers st) k)) st keys)"

definition os_Exit :: "int \<Rightarrow> ('c, 'h) state \<Rightarrow> ('c, 'h) state" where
  "os_Exit x st = st\<lparr>exited := Some x\<rparr>"

text \<open>
  \<^verbatim>\<open>once.Do\<close> runs its function only when the Once is unused. The function ends in
  \<^verbatim>\<open>os.Exit\<close>, which does not return, so the Once is left running. What a caller does that
  finds the Once in use (it waits) is the subject of the thread model below; called in
  sequence, it runs nothing.
\<close>

definition handleOnce :: "'c \<Rightarrow> os_Signal \<Rightarrow> int \<Rightarrow> ('c, 'h) state \<Rightarrow> ('c, 'h) state" where
  "handleOnce ctx s x st =
     (case once st of
        Idle \<Rightarrow> os_Exit x (handle ctx s (st\<lparr>once := Running\<rparr>))
      | Running \<Rightarrow> st
      | Done \<Rightarrow> st)"

definition Exit :: "'c \<Rightarrow> int \<Rightarrow> ('c, 'h) state \<Rightarrow> ('c, 'h) state" where
  "Exit ctx exitCode st =
     (let exitCode = (if exitCode < 0 then ExitCode st else exitCode)
      in handleOnce ctx noSigVal exitCode st)"

section \<open>Trapping signals\<close>

text \<open>
  The two functions of \<^verbatim>\<open>os/signal\<close> that the package calls, after their documentation and
  source: \<^verbatim>\<open>signal.Notify\<close> without signals asks for all signals, otherwise for the ones
  given; \<^verbatim>\<open>signal.Reset\<close> without signals resets all handlers, otherwise the ones given.
  Both go through \<^verbatim>\<open>signum\<close>, which knows the numbers from 0 up to \<^verbatim>\<open>numSig\<close> (65) of a
  \<^verbatim>\<open>syscall.Signal\<close> and ignores every other value.
\<close>

definition numSig :: int where
  "numSig = 65"

fun signum :: "os_Signal \<Rightarrow> int option" where
  "signum (Some (Signal n)) = (if n < 0 \<or> numSig \<le> n then None else Some n)"
| "signum (Some noSig) = None"
| "signum None = None"

definition signums :: "os_Signal list \<Rightarrow> int list" where
  "signums sig = List.map_filter signum sig"

definition signal_Notify :: "os_Signal list \<Rightarrow> int set \<Rightarrow> int set" where
  "signal_Notify sig t = (if sig = [] then {0..<numSig} else t \<union> set (signums sig))"

definition signal_Reset :: "os_Signal list \<Rightarrow> int set \<Rightarrow> int set" where
  "signal_Reset sig t = (if sig = [] then {} else t - set (signums sig))"

text \<open>
  An element of the variadic \<^verbatim>\<open>...interface{}\<close> argument of \<^verbatim>\<open>Notify\<close>, as the type switch
  sees it: a value that implements \<^verbatim>\<open>os.Signal\<close> (never nil: a nil interface matches no
  case), an \<^verbatim>\<open>int\<close>, or anything else.
\<close>

datatype arg = SignalArg sigval | IntArg int | OtherArg

fun notify_step ::
  "os_Signal \<times> (os_Signal \<times> int) list \<Rightarrow> arg \<Rightarrow> os_Signal \<times> (os_Signal \<times> int) list" where
  "notify_step (s, sigs) (SignalArg tv) = (Some tv, AList.update (Some tv) 0 sigs)"
| "notify_step (s, sigs) (IntArg tv) = (s, AList.update s tv sigs)"
| "notify_step (s, sigs) OtherArg = (s, sigs)"

definition notify_loop :: "arg list \<Rightarrow> os_Signal \<times> (os_Signal \<times> int) list" where
  "notify_loop signals = foldl notify_step (None, []) signals"

definition notify_sigs :: "arg list \<Rightarrow> ('c, 'h) state \<Rightarrow> (os_Signal \<times> int) list" where
  "notify_sigs signals st =
     (if length signals = 0 then defaultSignals st else snd (notify_loop signals))"

text \<open>
  \<^verbatim>\<open>Notify\<close> declares a local slice \<^verbatim>\<open>notified\<close> for the keys of the map; the package
  variable of the same name is not assigned.
\<close>

definition Notify :: "'c \<Rightarrow> arg list \<Rightarrow> ('c, 'h) state \<Rightarrow> ('c, 'h) state" where
  "Notify ctx signals st =
     (let sigs = notify_sigs signals st;
          notified_local = map fst sigs
      in st\<lparr>trapped := signal_Notify notified_local (trapped st),
            listeners := listeners st @ [(ctx, sigs)]\<rparr>)"

definition listener_body ::
  "'c \<Rightarrow> (os_Signal \<times> int) list \<Rightarrow> os_Signal \<Rightarrow> ('c, 'h) state \<Rightarrow> ('c, 'h) state" where
  "listener_body ctx sigs s st =
     (case map_of sigs s of
        None \<Rightarrow> st
      | Some x \<Rightarrow> handleOnce ctx s x st)"

definition Reset :: "('c, 'h) state \<Rightarrow> ('c, 'h) state" where
  "Reset st = st\<lparr>trapped := signal_Reset (notified st) (trapped st), handlers := None\<rparr>"

text \<open>The default signal maps of the two platform files, with the numbers of \<^verbatim>\<open>syscall\<close>.\<close>

definition SIGHUP :: os_Signal where "SIGHUP = Some (Signal 1)"
definition SIGINT :: os_Signal where "SIGINT = Some (Signal 2)"
definition SIGQUIT :: os_Signal where "SIGQUIT = Some (Signal 3)"
definition SIGKILL :: os_Signal where "SIGKILL = Some (Signal 9)"
definition SIGTERM :: os_Signal where "SIGTERM = Some (Signal 15)"

definition init :: "('c, 'h) state" where
  "init = \<lparr>ExitCode = 0, handlers = Some [],
           defaultSignals = [(SIGKILL, 1), (SIGHUP, 0), (SIGINT, 0), (SIGQUIT, 0), (SIGTERM, 0)],
           notified = [], once = Idle, trapped = {}, listeners = [], calls = [],
           exited = None\<rparr>"

section \<open>Programs that use the package\<close>

text \<open>A program that registers handlers one after the other stops at the first panic.\<close>

fun register_all :: "('h \<times> int) list \<Rightarrow> ('c, 'h) state \<Rightarrow> panic + ('c, 'h) state" where
  "register_all [] st = Inr st"
| "register_all ((f, priority) # rs) st =
     (case RegisterWithPriority f priority st of
        Inl e \<Rightarrow> Inl e
      | Inr st' \<Rightarrow> register_all rs st')"

subsection \<open>Argument lists of Notify\<close>

text \<open>
  An argument list in which every signal is followed by at most one integer is the
  flattening of a list of pairs of a signal and an optional status code.
\<close>

fun listing :: "(sigval \<times> int option) list \<Rightarrow> arg list" where
  "listing [] = []"
| "listing ((s, None) # ps) = SignalArg s # listing ps"
| "listing ((s, Some n) # ps) = SignalArg s # IntArg n # listing ps"

definition code_of :: "int option \<Rightarrow> int" where
  "code_of c = (case c of None \<Rightarrow> 0 | Some n \<Rightarrow> n)"

text \<open>The signal entry that most recently precedes the end of a list; nil when there is none.\<close>

fun last_signal :: "arg list \<Rightarrow> os_Signal" where
  "last_signal [] = None"
| "last_signal (a # as) =
     (case last_signal as of
        Some t \<Rightarrow> Some t
      | None \<Rightarrow> (case a of SignalArg t \<Rightarrow> Some t | IntArg n \<Rightarrow> None | OtherArg \<Rightarrow> None))"

text \<open>The integer entries that stand before the first signal entry.\<close>

fun leading_ints :: "arg list \<Rightarrow> int list" where
  "leading_ints [] = []"
| "leading_ints (SignalArg t # as) = []"
| "leading_ints (IntArg n # as) = n # leading_ints as"
| "leading_ints (OtherArg # as) = leading_ints as"

subsection \<open>Threads\<close>

text \<open>
  Goroutines that call \<^verbatim>\<open>Exit\<close> and listener goroutines interleave. A thread is at one of
  the points where it touches the package mutex \<^verbatim>\<open>lock\<close>, the signal channel or the Once:
  \<^item> \<open>CallExit ctx exitCode\<close>: \<^verbatim>\<open>Exit(ctx, exitCode)\<close> was called and is at \<^verbatim>\<open>lock.Lock()\<close>;
  \<^item> \<open>Listener ctx sigs q\<close>: the goroutine of \<^verbatim>\<open>Notify\<close> at \<^verbatim>\<open>for s := range sigc\<close>, where
    \<open>q\<close> are the signals the channel will still hand to it;
  \<^item> \<open>AtGate from ctx s x\<close>: in \<^verbatim>\<open>handleOnce(ctx, s, x)\<close>, about to call \<^verbatim>\<open>once.Do\<close>;
  \<^item> \<open>InGate from ctx s x\<close>: inside the function given to \<^verbatim>\<open>once.Do\<close>, before
    \<^verbatim>\<open>handle(ctx, s)\<close> and \<^verbatim>\<open>os.Exit(x)\<close>;
  \<^item> \<open>Returned\<close>: \<^verbatim>\<open>Exit\<close> has returned to its caller.
  \<open>from\<close> says where \<^verbatim>\<open>handleOnce\<close> returns to: into \<^verbatim>\<open>Exit\<close>, which holds \<^verbatim>\<open>lock\<close> and
  unlocks it when it returns, or into the loop of a listener.
\<close>

datatype caller = FromExit | FromListener "(os_Signal \<times> int) list" "os_Signal list"

datatype 'c thread =
    CallExit 'c int
  | Listener 'c "(os_Signal \<times> int) list" "os_Signal list"
  | AtGate caller 'c os_Signal int
  | InGate caller 'c os_Signal int
  | Returned

record ('c, 'h) config =
  shared :: "('c, 'h) state"
  lock :: bool
  threads :: "'c thread list"

text \<open>
  One step of thread \<open>i\<close>; \<open>None\<close> when the thread cannot move: the process has exited, the
  thread waits for \<^verbatim>\<open>lock\<close>, for the mutex of the Once or for a signal, or it has returned.
  \<^verbatim>\<open>sync.Mutex\<close> and \<^verbatim>\<open>sync.Once\<close> behave as documented: \<^verbatim>\<open>Lock\<close> waits while the mutex is
  held; \<^verbatim>\<open>Do\<close> runs the function if the Once is unused, waits while another call runs its
  function, and returns at once when that call has returned.
\<close>

definition update_thread :: "nat \<Rightarrow> 'c thread \<Rightarrow> ('c, 'h) config \<Rightarrow> ('c, 'h) config" where
  "update_thread i t c = c\<lparr>threads := (threads c)[i := t]\<rparr>"

definition step :: "nat \<Rightarrow> ('c, 'h) config \<Rightarrow> ('c, 'h) config option" where
  "step i c =
     (if exited (shared c) \<noteq> None \<or> length (threads c) \<le> i then None
      else case threads c ! i of
        CallExit ctx exitCode \<Rightarrow>
          if lock c then None
          else Some (update_thread i
                 (AtGate FromExit ctx noSigVal
                    (if exitCode < 0 then ExitCode (shared c) else exitCode))
                 (c\<lparr>lock := True\<rparr>))
      | Listener ctx sigs q \<Rightarrow>
          (case q of
             [] \<Rightarrow> None
           | s # q' \<Rightarrow>
               (case map_of sigs s of
                  None \<Rightarrow> Some (update_thread i (Listener ctx sigs q') c)
                | Some x \<Rightarrow> Some (update_thread i (AtGate (FromListener sigs q') ctx s x) c)))
      | AtGate from ctx s x \<Rightarrow>
          (case once (shared c) of
             Idle \<Rightarrow> Some (update_thread i (InGate from ctx s x)
                       (c\<lparr>shared := (shared c)\<lparr>once := Running\<rparr>\<rparr>))
           | Running \<Rightarrow> None
           | Done \<Rightarrow>
               (case from of
                  FromExit \<Rightarrow> Some (update_thread i Returned (c\<lparr>lock := False\<rparr>))
                | FromListener sigs q \<Rightarrow> Some (update_thread i (Listener ctx sigs q) c)))
      | InGate from ctx s x \<Rightarrow> Some (c\<lparr>shared := os_Exit x (handle ctx s (shared c))\<rparr>)
      | Returned \<Rightarrow> None)"

text \<open>
  A schedule names the thread that is given the processor at each moment; a thread that
  cannot move when it is scheduled leaves the configuration as it is.
\<close>

fun exec :: "nat list \<Rightarrow> ('c, 'h) config \<Rightarrow> ('c, 'h) config" where
  "exec [] c = c"
| "exec (i # sch) c = exec sch (case step i c of None \<Rightarrow> c | Some c' \<Rightarrow> c')"

definition start :: "('c, 'h) state \<Rightarrow> 'c thread list \<Rightarrow> ('c, 'h) config" where
  "start st ts = \<lparr>shared = st, lock = False, threads = ts\<rparr>"

fun fresh :: "'c thread \<Rightarrow> bool" where
  "fresh (CallExit ctx exitCode) = True"
| "fresh (Listener ctx sigs q) = True"
| "fresh _ = False"

fun in_gate :: "'c thread \<Rightarrow> bool" where
  "in_gate (InGate from ctx s x) = True"
| "in_gate _ = False"

text \<open>
  What a thread asks of the gate: the context, signal and status with which it calls, or
  will call, \<^verbatim>\<open>handleOnce\<close>. A listener asks with the first signal of its queue that is a
  key of its map; a listener whose queue holds no such signal asks nothing.
\<close>

fun first_mapped :: "(os_Signal \<times> int) list \<Rightarrow> os_Signal list \<Rightarrow> (os_Signal \<times> int) option" where
  "first_mapped sigs [] = None"
| "first_mapped sigs (s # q) =
     (case map_of sigs s of None \<Rightarrow> first_mapped sigs q | Some x \<Rightarrow> Some (s, x))"

fun request :: "('c, 'h) state \<Rightarrow> 'c thread \<Rightarrow> ('c \<times> os_Signal \<times> int) option" where
  "request st (CallExit ctx exitCode) =
     Some (ctx, noSigVal, if exitCode < 0 then ExitCode st else exitCode)"
| "request st (Listener ctx sigs q) =
     (case first_mapped sigs q of None \<Rightarrow> None | Some (s, x) \<Rightarrow> Some (ctx, s, x))"
| "request st (AtGate from ctx s x) = Some (ctx, s, x)"
| "request st (InGate from ctx s x) = Some (ctx, s, x)"
| "request st Returned = None"

text \<open>The state in which the one execution of the drain leaves the package.\<close>

definition executed :: "('c, 'h) state \<Rightarrow> 'c \<times> os_Signal \<times> int \<Rightarrow> ('c, 'h) state" where
  "executed st r = (case r of (ctx, s, x) \<Rightarrow> os_Exit x (handle ctx s (st\<lparr>once := Running\<rparr>)))"



text \<open>The threads that hold \<^verbatim>\<open>lock\<close>: those inside \<^verbatim>\<open>Exit\<close>.\<close>

fun holds_lock :: "'c thread \<Rightarrow> bool" where
  "holds_lock (AtGate FromExit ctx s x) = True"
| "holds_lock (InGate FromExit ctx s x) = True"
| "holds_lock _ = False"

text \<open>
  The invariant of all runs from a state \<open>st\<close> with the gate unused and fresh threads
  \<open>ts\<close>: every thread still asks what it asked at the start and none has returned; \<^verbatim>\<open>lock\<close>
  is held exactly when a thread is inside \<^verbatim>\<open>Exit\<close>; and either nothing has happened to the
  package state and no thread is inside the gate, or exactly one thread is, and the package
  state is \<open>st\<close> with the Once running, or what that thread's one execution made of it.
\<close>

definition gate_inv :: "('c, 'h) state \<Rightarrow> 'c thread list \<Rightarrow> ('c, 'h) config \<Rightarrow> bool" where
  "gate_inv st ts c \<longleftrightarrow>
     map (request st) (threads c) = map (request st) ts
   \<and> Returned \<notin> set (threads c)
   \<and> lock c = (True \<in> set (map holds_lock (threads c)))
   \<and> (shared c = st \<and> map in_gate (threads c) = replicate (length ts) False
      \<or> (\<exists>i<length ts. map in_gate (threads c) = (replicate (length ts) False)[i := True]
            \<and> (shared c = st\<lparr>once := Running\<rparr>
               \<or> (\<exists>r. request st (ts ! i) = Some r \<and> shared c = executed st r))))"



definition tsB :: "unit thread list" where
  "tsB = [CallExit () 0, CallExit () 1, Listener () [(SIGINT, 1)] [SIGINT]]"

section \<open>IsNormalExit\<close>

text \<open>
  C3. \<^verbatim>\<open>IsNormalExit\<close> is true exactly for the sentinel \<^verbatim>\<open>noSigVal\<close>; it is false for every
  signal of the operating system, and for the nil interface.
\<close>

theorem IsNormalExit_iff_sentinel:
  "IsNormalExit s = (s = noSigVal)
   \<and> \<not> IsNormalExit (Some (Signal n))
   \<and> \<not> IsNormalExit None
   \<and> IsNormalExit noSigVal"
  by (simp add: IsNormalExit_def noSigVal_def)

section \<open>The drain\<close>

lemma foldl_snoc_keys: "foldl (\<lambda>keys k. keys @ [k]) acc xs = acc @ xs"
  by (induction xs arbitrary: acc) simp_all

lemma foldl_invoke:
  "foldl (invoke ctx s) st hs = st\<lparr>calls := calls st @ map (\<lambda>h. (h, ctx, s)) hs\<rparr>"
  by (induction hs arbitrary: st) (simp_all add: invoke_def)

lemma foldl_buckets:
  "foldl (\<lambda>st k. foldl (invoke ctx s) st (bucket (handlers st) k)) st ks =
     st\<lparr>calls := calls st @
        concat (map (\<lambda>k. map (\<lambda>h. (h, ctx, s)) (bucket (handlers st) k)) ks)\<rparr>"
  by (induction ks arbitrary: st) (simp_all add: foldl_invoke)

lemma handle_eq:
  "handle ctx s st =
     st\<lparr>calls := calls st @
        concat (map (\<lambda>k. map (\<lambda>h. (h, ctx, s)) (bucket (handlers st) k))
                    (sort (range_keys (handlers st))))\<rparr>"
  by (simp add: handle_def foldl_snoc_keys foldl_buckets)

lemma handle_nil_map: "handlers st = None \<Longrightarrow> handle ctx s st = st"
  by (simp add: handle_eq range_keys_def)

section \<open>Exit and the default exit code\<close>

text \<open>
  C4. When the gate has not been used, \<^verbatim>\<open>Exit\<close> ends the process with the default
  \<^verbatim>\<open>ExitCode\<close> if the code it is given is negative, and with the given code otherwise.
\<close>

theorem Exit_status:
  "once st = Idle \<Longrightarrow>
     exited (Exit ctx exitCode st) = Some (if exitCode < 0 then ExitCode st else exitCode)"
  by (simp add: Exit_def handleOnce_def os_Exit_def handle_eq)

text \<open>Scenario D: code \<open>-1\<close> with the default set to 9.\<close>

theorem Exit_status_witness:
  "once (init\<lparr>ExitCode := 9\<rparr> :: (unit, nat) state) = Idle
   \<and> exited (Exit () (- 1) (init\<lparr>ExitCode := 9\<rparr> :: (unit, nat) state)) = Some 9"
  using Exit_status [of "init\<lparr>ExitCode := 9\<rparr> :: (unit, nat) state" "()" "- 1"]
  by (simp add: init_def)

section \<open>Registration and Reset\<close>

lemma RegisterWithPriority_Some:
  assumes "handlers st = Some al"
  shows "RegisterWithPriority f p st =
           Inr (st\<lparr>handlers := Some (AList.update p (bucket (Some al) p @ [f]) al)\<rparr>)"
  using assms
  by (simp add: RegisterWithPriority_def lookup_def assign_def bucket_def split: option.splits)

lemma RegisterWithPriority_calls:
  "RegisterWithPriority f p st = Inr st' \<Longrightarrow> calls st' = calls st"
  by (auto simp: RegisterWithPriority_def lookup_def assign_def split: option.splits)

text \<open>
  C5. \<^verbatim>\<open>Reset\<close> leaves the nil map in \<^verbatim>\<open>handlers\<close>, and an assignment to an entry of the nil
  map panics: after \<^verbatim>\<open>Reset\<close>, every registration ends in a panic instead of appending
  the handler to its bucket.
\<close>

theorem Register_after_Reset_panics:
  "RegisterWithPriority f priority (Reset st) = Inl AssignmentToEntryInNilMap
   \<and> Register f (Reset st) = Inl AssignmentToEntryInNilMap"
  by (simp add: Register_def RegisterWithPriority_def Reset_def lookup_def assign_def)

text \<open>
  C9. A registration, by \<^verbatim>\<open>RegisterWithPriority\<close> or by \<^verbatim>\<open>Register\<close>, that is followed by
  \<^verbatim>\<open>Reset\<close> and then by a drain: the drain calls no handler.
\<close>

theorem Register_Reset_drain_empty:
  assumes "RegisterWithPriority f priority st = Inr st' \<or> Register f st = Inr st'"
  shows "calls (handle ctx s (Reset st')) = calls st"
proof -
  from assms obtain p where reg: "RegisterWithPriority f p st = Inr st'"
    by (auto simp: Register_def)
  have "handlers (Reset st') = None" by (simp add: Reset_def)
  then have "handle ctx s (Reset st') = Reset st'" by (rule handle_nil_map)
  moreover have "calls (Reset st') = calls st'" by (simp add: Reset_def)
  ultimately show ?thesis using RegisterWithPriority_calls [OF reg] by simp
qed

theorem Register_Reset_drain_empty_witness:
  "RegisterWithPriority (7::nat) 3 (init :: (unit, nat) state)
     = Inr (init\<lparr>handlers := Some [(3, [7])]\<rparr>)
   \<and> calls (handle () noSigVal
        (Reset (init\<lparr>handlers := Some [(3, [7::nat])]\<rparr> :: (unit, nat) state))) = []"
proof -
  have r: "RegisterWithPriority (7::nat) 3 (init :: (unit, nat) state)
     = Inr (init\<lparr>handlers := Some [(3, [7])]\<rparr>)"
    by (simp add: RegisterWithPriority_def init_def lookup_def assign_def)
  show ?thesis
    using r Register_Reset_drain_empty [OF disjI1 [OF r], of "()" noSigVal]
    by (simp add: init_def)
qed

section \<open>The order of the drain\<close>

lemma bucket_update:
  "bucket (Some (AList.update p v al)) k = (if k = p then v else bucket (Some al) k)"
  by (simp add: bucket_def lookup_def update_conv')

lemma register_all_buckets:
  assumes "handlers st = Some al" "distinct (map fst al)"
  shows "\<exists>al'. register_all regs st = Inr (st\<lparr>handlers := Some al'\<rparr>)
           \<and> distinct (map fst al')
           \<and> set (map fst al') = set (map fst al) \<union> snd ` set regs
           \<and> (\<forall>k. bucket (Some al') k =
                  bucket (Some al) k @ map fst (filter (\<lambda>r. snd r = k) regs))"
  using assms
proof (induction regs arbitrary: st al)
  case Nil
  then show ?case by (intro exI [of _ al]) simp
next
  case (Cons r regs)
  obtain f p where r: "r = (f, p)" by (cases r)
  let ?al1 = "AList.update p (bucket (Some al) p @ [f]) al"
  let ?st1 = "st\<lparr>handlers := Some ?al1\<rparr>"
  have step: "RegisterWithPriority f p st = Inr ?st1"
    using Cons.prems(1) by (rule RegisterWithPriority_Some)
  have d1: "distinct (map fst ?al1)"
    using Cons.prems(2) by (rule distinct_update)
  have h1: "handlers ?st1 = Some ?al1" by simp
  from Cons.IH [OF h1 d1] obtain al' where
    al': "register_all regs ?st1 = Inr (?st1\<lparr>handlers := Some al'\<rparr>)"
      "distinct (map fst al')"
      "set (map fst al') = set (map fst ?al1) \<union> snd ` set regs"
      "\<forall>k. bucket (Some al') k = bucket (Some ?al1) k @ map fst (filter (\<lambda>r. snd r = k) regs)"
    by blast
  have keys: "set (map fst ?al1) = insert p (set (map fst al))"
    using dom_update [of p "bucket (Some al) p @ [f]" al] by simp
  show ?case
  proof (intro exI [of _ al'] conjI allI)
    show "register_all (r # regs) st = Inr (st\<lparr>handlers := Some al'\<rparr>)"
      using al'(1) by (simp add: r step)
    show "distinct (map fst al')" by (rule al'(2))
    show "set (map fst al') = set (map fst al) \<union> snd ` set (r # regs)"
      using al'(3) keys by (simp add: r)
    show "bucket (Some al') k = bucket (Some al) k @ map fst (filter (\<lambda>r. snd r = k) (r # regs))"
      for k
      using al'(4) by (simp add: r bucket_update)
  qed
qed

lemma least_key_first:
  assumes "sorted (map f zs)" "\<forall>z\<in>set zs. k \<le> f z"
  shows "filter (\<lambda>z. f z = k) zs @ filter (\<lambda>z. f z \<noteq> k) zs = (zs :: 'a list)"
  using assms
proof (induction zs)
  case Nil
  then show ?case by simp
next
  case (Cons z zs)
  show ?case
  proof (cases "f z = k")
    case True
    with Cons show ?thesis by simp
  next
    case False
    with Cons.prems have "\<forall>y\<in>set zs. f y \<noteq> k" by fastforce
    then have "filter (\<lambda>z. f z = k) zs = []" "filter (\<lambda>z. f z \<noteq> k) zs = zs"
      by (simp_all add: filter_empty_conv)
    with False show ?thesis by simp
  qed
qed

lemma concat_buckets_sorted:
  fixes f :: "'a \<Rightarrow> int"
  assumes "sorted (map f zs)" "sorted ks" "distinct ks" "f ` set zs \<subseteq> set ks"
  shows "concat (map (\<lambda>k. filter (\<lambda>z. f z = k) zs) ks) = zs"
  using assms
proof (induction ks arbitrary: zs)
  case Nil
  then show ?case by simp
next
  case (Cons k ks)
  let ?rest = "filter (\<lambda>z. f z \<noteq> k) zs"
  have least: "\<forall>z\<in>set zs. k \<le> f z"
    using Cons.prems(2,4) by auto
  have sr: "sorted (map f ?rest)"
    using Cons.prems(1) by (rule sorted_filter)
  have sub: "f ` set ?rest \<subseteq> set ks"
    using Cons.prems(4) by auto
  have sk: "sorted ks" and dk: "distinct ks"
    using Cons.prems(2,3) by simp_all
  have ih: "concat (map (\<lambda>k'. filter (\<lambda>z. f z = k') ?rest) ks) = ?rest"
    using sr sk dk sub by (rule Cons.IH)
  have eq: "map (\<lambda>k'. filter (\<lambda>z. f z = k') ?rest) ks = map (\<lambda>k'. filter (\<lambda>z. f z = k') zs) ks"
  proof (rule map_cong [OF refl])
    fix k' assume "k' \<in> set ks"
    then have "k' \<noteq> k" using Cons.prems(3) by auto
    then show "filter (\<lambda>z. f z = k') ?rest = filter (\<lambda>z. f z = k') zs"
      by (auto intro: filter_cong)
  qed
  from ih have "concat (map (\<lambda>k'. filter (\<lambda>z. f z = k') zs) ks) = ?rest"
    by (simp only: eq)
  then show ?case using least_key_first [OF Cons.prems(1) least] by simp
qed

lemma concat_map_map:
  "concat (map (\<lambda>k. map g (h k)) ks) = map g (concat (map h ks))"
  by (induction ks) simp_all

text \<open>
  C2. After any sequence of registrations into the empty registry, the drain, also when it
  runs inside the gate, calls the registered handlers in an order \<open>ys\<close> that is a rearrangement
  of the registrations, ascending in priority, and that keeps the handlers of each priority
  in the order of their registration.
\<close>

theorem drain_in_priority_then_registration_order:
  assumes "handlers st = Some []"
  shows "\<exists>st' ys. register_all regs st = Inr st'
           \<and> calls (handle ctx s st') = calls st @ map (\<lambda>r. (fst r, ctx, s)) ys
           \<and> (once st = Idle \<longrightarrow>
                calls (handleOnce ctx s x st') = calls st @ map (\<lambda>r. (fst r, ctx, s)) ys)
           \<and> mset ys = mset regs
           \<and> sorted (map snd ys)
           \<and> (\<forall>p. filter (\<lambda>r. snd r = p) ys = filter (\<lambda>r. snd r = p) regs)"
proof -
  let ?ys = "sort_key snd regs"
  from register_all_buckets [OF assms, of regs] obtain al where
    al: "register_all regs st = Inr (st\<lparr>handlers := Some al\<rparr>)"
      "distinct (map fst al)"
      "set (map fst al) = snd ` set regs"
      "\<forall>k. bucket (Some al) k = map fst (filter (\<lambda>r. snd r = k) regs)"
    by (auto simp: bucket_def lookup_def)
  let ?st' = "st\<lparr>handlers := Some al\<rparr>"
  let ?ks = "sort (map fst al)"
  have stable: "filter (\<lambda>r. snd r = p) ?ys = filter (\<lambda>r. snd r = p) regs" for p
    by (rule sort_key_stable)
  have part: "concat (map (\<lambda>k. filter (\<lambda>r. snd r = k) ?ys) ?ks) = ?ys"
  proof (rule concat_buckets_sorted)
    show "sorted (map snd ?ys)" by (rule sorted_sort_key)
    show "sorted ?ks" by simp
    show "distinct ?ks" using al(2) by simp
    show "snd ` set ?ys \<subseteq> set ?ks" using al(3) by simp
  qed
  have "calls (handle ctx s ?st') =
          calls st @ concat (map (\<lambda>k. map (\<lambda>h. (h, ctx, s)) (bucket (Some al) k)) ?ks)"
    by (simp add: handle_eq range_keys_def)
  also have "concat (map (\<lambda>k. map (\<lambda>h. (h, ctx, s)) (bucket (Some al) k)) ?ks) =
               concat (map (\<lambda>k. map (\<lambda>r. (fst r, ctx, s)) (filter (\<lambda>r. snd r = k) ?ys)) ?ks)"
    by (simp add: al(4) stable comp_def)
  also have "\<dots> = map (\<lambda>r. (fst r, ctx, s)) ?ys"
    by (simp only: concat_map_map part)
  finally have c: "calls (handle ctx s ?st') = calls st @ map (\<lambda>r. (fst r, ctx, s)) ?ys" .
  have "calls (handleOnce ctx s x ?st') = calls (handle ctx s ?st')" if "once st = Idle"
    using that by (simp add: handleOnce_def os_Exit_def handle_eq)
  with c show ?thesis
    using al(1) stable by (intro exI [of _ ?st'] exI [of _ ?ys]) simp
qed

text \<open>Scenario A: H1 and H2 with priority 0, then H0 with priority \<open>-1\<close>, run as H0, H1, H2.\<close>

theorem drain_in_priority_then_registration_order_witness:
  "handlers (init :: (unit, string) state) = Some []
   \<and> once (init :: (unit, string) state) = Idle
   \<and> register_all [(''H1'', 0), (''H2'', 0), (''H0'', - 1)] (init :: (unit, string) state)
       = Inr (init\<lparr>handlers := Some [(0, [''H1'', ''H2'']), (- 1, [''H0''])]\<rparr>)
   \<and> calls (handle () noSigVal
        (init\<lparr>handlers := Some [(0, [''H1'', ''H2'']), (- 1, [''H0''])]\<rparr> :: (unit, string) state))
       = [(''H0'', (), noSigVal), (''H1'', (), noSigVal), (''H2'', (), noSigVal)]
   \<and> (\<exists>st' ys. register_all [(''H1'', 0), (''H2'', 0), (''H0'', - 1)] (init :: (unit, string) state) = Inr st'
           \<and> calls (handle () noSigVal st')
               = calls (init :: (unit, string) state) @ map (\<lambda>r. (fst r, (), noSigVal)) ys
           \<and> (once (init :: (unit, string) state) = Idle \<longrightarrow>
                calls (handleOnce () noSigVal 0 st')
                  = calls (init :: (unit, string) state) @ map (\<lambda>r. (fst r, (), noSigVal)) ys)
           \<and> mset ys = mset [(''H1'', 0 :: int), (''H2'', 0), (''H0'', - 1)]
           \<and> sorted (map snd ys)
           \<and> (\<forall>p. filter (\<lambda>r. snd r = p) ys
                  = filter (\<lambda>r. snd r = p) [(''H1'', 0), (''H2'', 0), (''H0'', - 1)]))"
proof -
  have h: "handlers (init :: (unit, string) state) = Some []" by (simp add: init_def)
  have r: "register_all [(''H1'', 0), (''H2'', 0), (''H0'', - 1)] (init :: (unit, string) state)
       = Inr (init\<lparr>handlers := Some [(0, [''H1'', ''H2'']), (- 1, [''H0''])]\<rparr>)"
    by (simp add: RegisterWithPriority_def lookup_def assign_def init_def)
  have c: "calls (handle () noSigVal
        (init\<lparr>handlers := Some [(0, [''H1'', ''H2'']), (- 1, [''H0''])]\<rparr> :: (unit, string) state))
       = [(''H0'', (), noSigVal), (''H1'', (), noSigVal), (''H2'', (), noSigVal)]"
    by (simp add: handle_def range_keys_def bucket_def lookup_def invoke_def init_def)
  note e = drain_in_priority_then_registration_order
        [OF h, of "[(''H1'', 0), (''H2'', 0), (''H0'', - 1)]" "()" noSigVal 0]
  have o: "once (init :: (unit, string) state) = Idle" by (simp add: init_def)
  show ?thesis
    using h o r c e by (intro conjI) assumption+
qed

section \<open>Reset and the trapped signals\<close>

lemma Notify_notified: "notified (Notify ctx signals st) = notified st"
  by (simp add: Notify_def Let_def)

lemma Reset_trapped: "notified st = [] \<Longrightarrow> trapped (Reset st) = {}"
  by (simp add: Reset_def signal_Reset_def)

text \<open>
  C6. \<^verbatim>\<open>Notify\<close> fills a local slice and leaves the package variable \<^verbatim>\<open>notified\<close> empty, so
  \<^verbatim>\<open>Reset\<close> calls \<^verbatim>\<open>signal.Reset\<close> without signals, which resets every signal. After
  \<^verbatim>\<open>Notify(ctx, SIGINT)\<close> and \<^verbatim>\<open>Notify(ctx, SIGTERM)\<close> the signals 2 and 15 are trapped;
  \<^verbatim>\<open>Reset\<close> cancels both, not only the 15 of the most recent call.
\<close>

theorem Reset_cancels_every_subscription:
  "trapped (Notify () [SignalArg (Signal 15)]
             (Notify () [SignalArg (Signal 2)] (init :: (unit, nat) state))) = {2, 15}
   \<and> notified (Notify () [SignalArg (Signal 15)]
             (Notify () [SignalArg (Signal 2)] (init :: (unit, nat) state))) = []
   \<and> trapped (Reset (Notify () [SignalArg (Signal 15)]
             (Notify () [SignalArg (Signal 2)] (init :: (unit, nat) state)))) = {}"
  by (simp add: Reset_def Notify_def notify_sigs_def notify_loop_def init_def
        signal_Notify_def signal_Reset_def signums_def map_filter_simps numSig_def
        insert_commute)

section \<open>The signal map of Notify\<close>

lemma foldl_listing:
  "map_of (snd (foldl notify_step (s, sigs) (listing ps))) =
     map_of sigs ++ map_of (rev (map (\<lambda>(t, c). (Some t, code_of c)) ps))"
proof (induction ps arbitrary: s sigs rule: listing.induct)
  case 1
  then show ?case by simp
next
  case (2 t ps)
  show ?case
    by (simp add: 2 update_conv' code_of_def map_add_upd_left fun_eq_iff map_add_def split: option.splits)
next
  case (3 t n ps)
  show ?case
    by (simp add: 3 update_conv' code_of_def fun_eq_iff map_add_def split: option.splits)
qed

lemma listing_Nil: "listing ps = [] \<longleftrightarrow> ps = []"
  by (induction ps rule: listing.induct) simp_all

lemma notify_sigs_listing:
  assumes "ps \<noteq> []"
  shows "map_of (notify_sigs (listing ps) st) =
           map_of (rev (map (\<lambda>(t, c). (Some t, code_of c)) ps))"
  using assms by (simp add: notify_sigs_def notify_loop_def foldl_listing listing_Nil)

lemma map_of_rev_last:
  assumes "k \<notin> fst ` set post"
  shows "map_of (rev (pre @ (k, v) # post)) k = Some v"
proof -
  have "map_of (rev post) k = None"
    using assms by (simp add: map_of_eq_None_iff)
  then show ?thesis by (simp add: map_add_def)
qed

lemma last_listing_counts:
  assumes "ps \<noteq> []" and ps: "ps = pre @ (s, c) # post" and post: "s \<notin> fst ` set post"
  shows "map_of (notify_sigs (listing ps) st) (Some s) = Some (code_of c)"
proof -
  let ?g = "\<lambda>(t, c). (Some t, code_of c)"
  have "Some s \<notin> fst ` set (map ?g post)" using post by (auto simp: image_iff)
  then have "map_of (rev (map ?g pre @ (Some s, code_of c) # map ?g post)) (Some s) = Some (code_of c)"
    by (rule map_of_rev_last)
  moreover have "map ?g ps = map ?g pre @ (Some s, code_of c) # map ?g post"
    using ps by simp
  ultimately have "map_of (rev (map ?g ps)) (Some s) = Some (code_of c)"
    by (simp only:)
  then show ?thesis
    by (simp only: notify_sigs_listing [OF assms(1)])
qed

text \<open>
  C8. For a non-empty argument list in which every signal is followed by at most one
  integer, the map that \<^verbatim>\<open>Notify\<close> hands to its listener gives every listed signal the
  integer that follows it, and 0 when no integer follows it (last conjunct). Where a signal
  is listed more than once, its last listing is the one that counts (first conjunct). The
  map has no other key.
\<close>

theorem Notify_resolves_last_listing:
  assumes "ps \<noteq> []"
  shows "(\<forall>pre s c post. ps = pre @ (s, c) # post \<and> s \<notin> fst ` set post \<longrightarrow>
            map_of (notify_sigs (listing ps) st) (Some s) = Some (code_of c))
       \<and> (\<forall>k. k \<notin> Some ` fst ` set ps \<longrightarrow> map_of (notify_sigs (listing ps) st) k = None)
       \<and> listeners (Notify ctx (listing ps) st) = listeners st @ [(ctx, notify_sigs (listing ps) st)]
       \<and> (distinct (map fst ps) \<longrightarrow>
            (\<forall>s c. (s, c) \<in> set ps \<longrightarrow>
               map_of (notify_sigs (listing ps) st) (Some s) = Some (code_of c)))"
proof (intro conjI allI impI)
  fix s c
  assume d: "distinct (map fst ps)" and m: "(s, c) \<in> set ps"
  from split_list [OF m] obtain pre post where ps: "ps = pre @ (s, c) # post" by blast
  have post: "s \<notin> fst ` set post" using d by (simp add: ps)
  show "map_of (notify_sigs (listing ps) st) (Some s) = Some (code_of c)"
    by (rule last_listing_counts [OF assms ps post])
next
  fix pre s c post
  assume a: "ps = pre @ (s, c) # post \<and> s \<notin> fst ` set post"
  then have ps: "ps = pre @ (s, c) # post" and post: "s \<notin> fst ` set post"
    by simp_all
  show "map_of (notify_sigs (listing ps) st) (Some s) = Some (code_of c)"
    by (rule last_listing_counts [OF assms ps post])
next
  fix k
  assume "k \<notin> Some ` fst ` set ps"
  then have "k \<notin> fst ` set (rev (map (\<lambda>(t, c). (Some t, code_of c)) ps))"
    by (auto simp: image_iff)
  then show "map_of (notify_sigs (listing ps) st) k = None"
    by (simp add: notify_sigs_listing [OF assms] map_of_eq_None_iff)
next
  show "listeners (Notify ctx (listing ps) st) = listeners st @ [(ctx, notify_sigs (listing ps) st)]"
    by (simp add: Notify_def Let_def)
qed

text \<open>
  \<^verbatim>\<open>Notify(ctx, SIGINT, 5, SIGTERM)\<close> gives 5 to signal 2 and 0 to signal 15; in
  \<^verbatim>\<open>Notify(ctx, SIGINT, 5, SIGTERM, SIGINT, 7)\<close> signal 2 has the 7 of its last listing.
\<close>

theorem Notify_resolves_last_listing_witness:
  "[(Signal 2, Some 5), (Signal 15, None)] \<noteq> []
   \<and> distinct (map fst [(Signal 2, Some (5::int)), (Signal 15, None)])
   \<and> map_of (notify_sigs [SignalArg (Signal 2), IntArg 5, SignalArg (Signal 15)]
        (init :: (unit, nat) state)) (Some (Signal 2)) = Some 5
   \<and> map_of (notify_sigs [SignalArg (Signal 2), IntArg 5, SignalArg (Signal 15)]
        (init :: (unit, nat) state)) (Some (Signal 15)) = Some 0
   \<and> [(Signal 2, Some 5), (Signal 15, None), (Signal 2, Some 7)] \<noteq> []
   \<and> map_of (notify_sigs [SignalArg (Signal 2), IntArg 5, SignalArg (Signal 15), SignalArg (Signal 2), IntArg 7]
        (init :: (unit, nat) state)) (Some (Signal 2)) = Some 7
   \<and> map_of (notify_sigs [SignalArg (Signal 2), IntArg 5, SignalArg (Signal 15), SignalArg (Signal 2), IntArg 7]
        (init :: (unit, nat) state)) (Some (Signal 15)) = Some 0
   \<and> map_of (notify_sigs [SignalArg (Signal 2), IntArg 5, SignalArg (Signal 15), SignalArg (Signal 2), IntArg 7]
        (init :: (unit, nat) state)) None = None"
proof -
  let ?qs = "[(Signal 2, Some (5::int)), (Signal 15, None)]"
  have neq: "?qs \<noteq> []" by simp
  have dq: "distinct (map fst ?qs)" by simp
  note u = Notify_resolves_last_listing [OF neq, of "init :: (unit, nat) state" "()"]
  note u4 = u [THEN conjunct2, THEN conjunct2, THEN conjunct2, rule_format, OF dq]
  have q1: "map_of (notify_sigs (listing ?qs) (init :: (unit, nat) state)) (Some (Signal 2)) = Some 5"
    using u4 [of "Signal 2" "Some 5"] by (simp add: code_of_def)
  have q2: "map_of (notify_sigs (listing ?qs) (init :: (unit, nat) state)) (Some (Signal 15)) = Some 0"
    using u4 [of "Signal 15" None] by (simp add: code_of_def)
  let ?ps = "[(Signal 2, Some 5), (Signal 15, None), (Signal 2, Some 7)]"
  have ne: "?ps \<noteq> []" by simp
  note t = Notify_resolves_last_listing [OF ne, of "init :: (unit, nat) state" "()"]
  have a: "map_of (notify_sigs (listing ?ps) (init :: (unit, nat) state)) (Some (Signal 2)) = Some 7"
    using t [THEN conjunct1, rule_format, of "[(Signal 2, Some 5), (Signal 15, None)]" "Signal 2" "Some 7" "[]"]
    by (simp add: code_of_def)
  have b: "map_of (notify_sigs (listing ?ps) (init :: (unit, nat) state)) (Some (Signal 15)) = Some 0"
    using t [THEN conjunct1, rule_format, of "[(Signal 2, Some 5)]" "Signal 15" "None" "[(Signal 2, Some 7)]"]
    by (simp add: code_of_def)
  have c: "map_of (notify_sigs (listing ?ps) (init :: (unit, nat) state)) None = None"
    using t [THEN conjunct2, THEN conjunct1, rule_format, of None]
    by simp
  show ?thesis using q1 q2 a b c by simp
qed

lemma notify_loop_snoc: "notify_loop (pre @ [a]) = notify_step (notify_loop pre) a"
  by (simp add: notify_loop_def)

lemma last_signal_snoc:
  "last_signal (pre @ [a]) = (case a of SignalArg t \<Rightarrow> Some t | IntArg n \<Rightarrow> last_signal pre | OtherArg \<Rightarrow> last_signal pre)"
  by (induction pre) (auto split: option.splits arg.splits)

lemma fst_notify_loop: "fst (notify_loop pre) = last_signal pre"
proof (induction pre rule: rev_induct)
  case Nil
  then show ?case by (simp add: notify_loop_def)
next
  case (snoc a pre)
  then show ?case
    by (cases a; cases "notify_loop pre") (simp_all add: notify_loop_snoc last_signal_snoc)
qed

lemma notify_loop_append:
  "notify_loop (pre @ post) = foldl notify_step (notify_loop pre) post"
  by (simp add: notify_loop_def)

lemma notify_loop_eq: "notify_loop pre = (last_signal pre, snd (notify_loop pre))"
  using fst_notify_loop [of pre] by (cases "notify_loop pre") simp

lemma nil_key_kept:
  "s \<noteq> None \<Longrightarrow> map_of (snd (foldl notify_step (s, sigs) xs)) None = map_of sigs None"
proof (induction xs arbitrary: s sigs)
  case Nil
  then show ?case by simp
next
  case (Cons a xs)
  then show ?case by (cases a) (auto simp: update_conv')
qed

lemma nil_key_leading:
  "map_of (snd (foldl notify_step (None, sigs) xs)) None =
     (case leading_ints xs of [] \<Rightarrow> map_of sigs None | n # ns \<Rightarrow> Some (last (n # ns)))"
proof (induction xs arbitrary: sigs rule: leading_ints.induct)
  case 1
  then show ?case by simp
next
  case (2 t as)
  then show ?case by (simp add: nil_key_kept update_conv')
next
  case (3 n as)
  then show ?case by (simp add: update_conv' split: list.splits)
next
  case (4 as)
  then show ?case by simp
qed

text \<open>
  C10. In the loop of \<^verbatim>\<open>Notify\<close> an integer entry is stored under the signal entry that
  most recently precedes it, over whatever code that signal had; with no signal entry before
  it, it is stored under the nil signal, so that the final map gives nil the last integer
  that stands before the first signal; an entry that is neither is skipped. For a non-empty
  list the map of the loop is the one the listener gets.
\<close>

theorem Notify_int_and_other_entries:
  "notify_loop (pre @ [IntArg n]) =
     (last_signal pre, AList.update (last_signal pre) n (snd (notify_loop pre)))
   \<and> map_of (snd (notify_loop (pre @ [IntArg n]))) (last_signal pre) = Some n
   \<and> ((\<forall>t. SignalArg t \<notin> set pre) \<longrightarrow> last_signal pre = None)
   \<and> map_of (snd (notify_loop signals)) None =
       (case leading_ints signals of [] \<Rightarrow> None | m # ms \<Rightarrow> Some (last (m # ms)))
   \<and> notify_loop (pre @ OtherArg # post) = notify_loop (pre @ post)
   \<and> (signals \<noteq> [] \<longrightarrow>
        listeners (Notify ctx signals st) = listeners st @ [(ctx, snd (notify_loop signals))])"
proof (intro conjI impI)
  show 1: "notify_loop (pre @ [IntArg n]) =
     (last_signal pre, AList.update (last_signal pre) n (snd (notify_loop pre)))"
    by (subst notify_loop_snoc, subst notify_loop_eq) simp
  show "map_of (snd (notify_loop (pre @ [IntArg n]))) (last_signal pre) = Some n"
    by (simp add: 1 update_conv')
  show "last_signal pre = None" if "\<forall>t. SignalArg t \<notin> set pre"
    using that
  proof (induction pre)
    case Nil
    then show ?case by simp
  next
    case (Cons a pre)
    then show ?case by (cases a) auto
  qed
  show "map_of (snd (notify_loop signals)) None =
       (case leading_ints signals of [] \<Rightarrow> None | m # ms \<Rightarrow> Some (last (m # ms)))"
    by (simp add: notify_loop_def nil_key_leading split: list.splits)
  show "notify_loop (pre @ OtherArg # post) = notify_loop (pre @ post)"
    by (cases "notify_loop pre") (simp add: notify_loop_append)
  show "listeners (Notify ctx signals st) = listeners st @ [(ctx, snd (notify_loop signals))]"
    if "signals \<noteq> []"
    using that by (simp add: Notify_def notify_sigs_def Let_def)
qed

theorem Notify_int_and_other_entries_witness:
  "notify_loop ([SignalArg (Signal 2), IntArg 1] @ [IntArg 3]) = (Some (Signal 2), [(Some (Signal 2), 3)])
   \<and> (\<forall>t. SignalArg t \<notin> set [OtherArg])
   \<and> notify_loop ([OtherArg] @ [IntArg 5]) = (None, [(None, 5)])
   \<and> map_of (snd (notify_loop [IntArg 5, IntArg 6, SignalArg (Signal 2), IntArg 7])) None = Some 6
   \<and> notify_loop ([IntArg 5] @ OtherArg # [SignalArg (Signal 2)]) = ((Some (Signal 2), [(None, 5), (Some (Signal 2), 0)]))
   \<and> [IntArg 5, SignalArg (Signal 2)] \<noteq> []
   \<and> listeners (Notify () [IntArg 5, SignalArg (Signal 2)] (init :: (unit, nat) state))
        = [((), [(None, 5), (Some (Signal 2), 0)])]"
proof -
  have h1: "\<forall>t. SignalArg t \<notin> set [OtherArg]" by simp
  have h2: "[IntArg 5, SignalArg (Signal 2)] \<noteq> []" by simp
  note a = Notify_int_and_other_entries
    [of "[SignalArg (Signal 2), IntArg 1]" 3 "[IntArg 5, IntArg 6, SignalArg (Signal 2), IntArg 7]"
        "[]" "()" "init :: (unit, nat) state"]
  note b = Notify_int_and_other_entries
    [of "[OtherArg]" 5 "[IntArg 5, SignalArg (Signal 2)]" "[]" "()" "init :: (unit, nat) state"]
  note c = Notify_int_and_other_entries
    [of "[IntArg 5]" 5 "[IntArg 5, SignalArg (Signal 2)]" "[SignalArg (Signal 2)]" "()" "init :: (unit, nat) state"]
  have l: "last_signal [OtherArg] = None"
    using b h1 by blast
  show ?thesis
    using a b c h1 h2 l by (simp add: notify_loop_def init_def)
qed

section \<open>The gate under interleaving\<close>

text \<open>One thread alone does what the sequential reading of \<^verbatim>\<open>Exit\<close> does.\<close>

lemma one_Exit_thread:
  assumes "once st = Idle" "exited st = None"
  shows "shared (exec [0, 0, 0] (start st [CallExit ctx exitCode])) = Exit ctx exitCode st"
  using assms
  by (simp add: start_def step_def update_thread_def Exit_def handleOnce_def)

lemma one_listener_thread:
  assumes "once st = Idle" "exited st = None"
  shows "shared (exec [0, 0, 0] (start st [Listener ctx sigs [s]])) = listener_body ctx sigs s st"
  using assms
  by (cases "map_of sigs s")
    (simp_all add: start_def step_def update_thread_def listener_body_def handleOnce_def)

lemma step_SomeE:
  assumes "step i c = Some c'"
  obtains
    (CallExit) ctx exitCode where "threads c ! i = CallExit ctx exitCode" "\<not> lock c"
      "c' = update_thread i (AtGate FromExit ctx noSigVal
              (if exitCode < 0 then ExitCode (shared c) else exitCode)) (c\<lparr>lock := True\<rparr>)"
  | (Skip) ctx sigs s q where "threads c ! i = Listener ctx sigs (s # q)" "map_of sigs s = None"
      "c' = update_thread i (Listener ctx sigs q) c"
  | (Mapped) ctx sigs s q x where "threads c ! i = Listener ctx sigs (s # q)"
      "map_of sigs s = Some x" "c' = update_thread i (AtGate (FromListener sigs q) ctx s x) c"
  | (Claim) fr ctx s x where "threads c ! i = AtGate fr ctx s x" "once (shared c) = Idle"
      "c' = update_thread i (InGate fr ctx s x) (c\<lparr>shared := (shared c)\<lparr>once := Running\<rparr>\<rparr>)"
  | (DoneExit) ctx s x where "threads c ! i = AtGate FromExit ctx s x" "once (shared c) = Done"
      "c' = update_thread i Returned (c\<lparr>lock := False\<rparr>)"
  | (DoneListener) sigs q ctx s x where "threads c ! i = AtGate (FromListener sigs q) ctx s x"
      "once (shared c) = Done" "c' = update_thread i (Listener ctx sigs q) c"
  | (Drain) fr ctx s x where "threads c ! i = InGate fr ctx s x"
      "c' = c\<lparr>shared := os_Exit x (handle ctx s (shared c))\<rparr>"
  using assms
  by (auto simp: step_def split: if_splits thread.splits list.splits option.splits
        Once.splits caller.splits)

lemma step_Some_basic:
  assumes "step i c = Some c'"
  shows "exited (shared c) = None" "i < length (threads c)"
  using assms by (auto simp: step_def split: if_splits)

lemma executed_exited: "exited (executed st r) \<noteq> None"
  by (cases r) (simp add: executed_def os_Exit_def)

lemma map_update_same:
  "i < length xs \<Longrightarrow> f t = f (xs ! i) \<Longrightarrow> map f (xs[i := t]) = map f xs"
  by (simp add: map_update list_update_same_conv)

lemma not_in_update: "t \<noteq> a \<Longrightarrow> a \<notin> set xs \<Longrightarrow> a \<notin> set (xs[i := t])"
  using set_update_subset_insert [of xs i t] by auto

text \<open>A step that changes neither the shared state nor what the thread asks, holds or is.\<close>

lemma gate_inv_quiet:
  assumes inv: "gate_inv st ts c" and i: "i < length (threads c)"
    and t: "request st t = request st (threads c ! i)" "t \<noteq> Returned"
      "holds_lock t = holds_lock (threads c ! i)" "in_gate t = in_gate (threads c ! i)"
  shows "gate_inv st ts (update_thread i t c)"
proof -
  have "map (request st) (threads (update_thread i t c)) = map (request st) (threads c)"
    using i t(1) by (simp add: update_thread_def map_update_same)
  moreover have "map holds_lock (threads (update_thread i t c)) = map holds_lock (threads c)"
    using i t(3) by (simp add: update_thread_def map_update_same)
  moreover have "map in_gate (threads (update_thread i t c)) = map in_gate (threads c)"
    using i t(4) by (simp add: update_thread_def map_update_same)
  moreover have "Returned \<notin> set (threads (update_thread i t c))"
    using inv t(2) by (simp add: update_thread_def gate_inv_def not_in_update)
  moreover have "shared (update_thread i t c) = shared c" "lock (update_thread i t c) = lock c"
    by (simp_all add: update_thread_def)
  ultimately show ?thesis
    using inv by (simp add: gate_inv_def)
qed

lemma gate_inv_shared:
  assumes "gate_inv st ts c" "exited (shared c) = None"
  shows "shared c = st \<or> shared c = st\<lparr>once := Running\<rparr>"
  using assms by (auto simp: gate_inv_def executed_exited)

lemma gate_inv_length: "gate_inv st ts c \<Longrightarrow> length (threads c) = length ts"
  by (auto simp: gate_inv_def dest: map_eq_imp_length_eq)

lemma executed_once: "once (executed st r) = Running"
  by (cases r) (simp add: executed_def os_Exit_def handle_eq)

lemma gate_inv_Idle:
  assumes "gate_inv st ts c" "once (shared c) = Idle"
  shows "shared c = st" "map in_gate (threads c) = replicate (length ts) False"
proof -
  have "once (shared c) = Running"
    if "shared c = st\<lparr>once := Running\<rparr> \<or> (\<exists>r. shared c = executed st r)"
    using that by (auto simp: executed_once)
  with assms(2) have "\<not> (shared c = st\<lparr>once := Running\<rparr> \<or> (\<exists>r. shared c = executed st r))"
    by auto
  with assms(1) show "shared c = st" "map in_gate (threads c) = replicate (length ts) False"
    unfolding gate_inv_def by blast+
qed

lemma gate_inv_step:
  assumes inv: "gate_inv st ts c" and st: "once st = Idle" "exited st = None"
    and step: "step i c = Some c'"
  shows "gate_inv st ts c'"
proof -
  note b = step_Some_basic [OF step]
  note len = gate_inv_length [OF inv]
  note sh = gate_inv_shared [OF inv b(1)]
  have notDone: "once (shared c) \<noteq> Done" using sh st by auto
  from step show ?thesis
  proof (cases rule: step_SomeE)
    case (CallExit ctx exitCode)
    let ?t = "AtGate FromExit ctx noSigVal (if exitCode < 0 then ExitCode (shared c) else exitCode)"
    have code: "ExitCode (shared c) = ExitCode st" using sh by auto
    have 1: "map (request st) (threads c') = map (request st) (threads c)"
      using b(2) CallExit(1) code by (simp add: CallExit(3) update_thread_def map_update_same)
    have 2: "map in_gate (threads c') = map in_gate (threads c)"
      using b(2) CallExit(1) by (simp add: CallExit(3) update_thread_def map_update_same)
    have 3: "Returned \<notin> set (threads c')"
      using inv by (simp add: CallExit(3) update_thread_def gate_inv_def not_in_update)
    have 4: "True \<in> set (map holds_lock (threads c'))"
      using b(2) by (simp add: CallExit(3) update_thread_def map_update set_update_memI)
    have 5: "shared c' = shared c" "lock c'"
      by (simp_all add: CallExit(3) update_thread_def)
    show ?thesis
      using inv 1 2 3 4 5 by (simp add: gate_inv_def)
  next
    case (Skip ctx sigs s q)
    show ?thesis
      unfolding Skip(3) using inv b(2)
      by (rule gate_inv_quiet) (simp_all add: Skip)
  next
    case (Mapped ctx sigs s q x)
    show ?thesis
      unfolding Mapped(3) using inv b(2)
      by (rule gate_inv_quiet) (simp_all add: Mapped)
  next
    case (Claim fr ctx s x)
    let ?c1 = "c\<lparr>shared := (shared c)\<lparr>once := Running\<rparr>\<rparr>"
    note idle = gate_inv_Idle [OF inv Claim(2)]
    have i: "i < length ts" using b(2) len by simp
    have 1: "map (request st) (threads c') = map (request st) (threads c)"
      using b(2) Claim(1) by (simp add: Claim(3) update_thread_def map_update_same)
    have 2: "map holds_lock (threads c') = map holds_lock (threads c)"
      using b(2) Claim(1) by (cases fr) (simp_all add: Claim(3) update_thread_def map_update_same)
    have 3: "Returned \<notin> set (threads c')"
      using inv by (simp add: Claim(3) update_thread_def gate_inv_def not_in_update)
    have 4: "map in_gate (threads c') = (replicate (length ts) False)[i := True]"
      using idle(2) by (simp add: Claim(3) update_thread_def map_update)
    have 5: "shared c' = st\<lparr>once := Running\<rparr>" "lock c' = lock c"
      using idle(1) by (simp_all add: Claim(3) update_thread_def)
    show ?thesis
      using inv 1 2 3 4 5 i by (auto simp: gate_inv_def)
  next
    case (DoneExit ctx s x)
    then show ?thesis using notDone by simp
  next
    case (DoneListener sigs q ctx s x)
    then show ?thesis using notDone by simp
  next
    case (Drain fr ctx s x)
    have i: "i < length ts" using b(2) len by simp
    have ing: "map in_gate (threads c) ! i = True"
      using b(2) Drain(1) by simp
    have notIdle: "shared c \<noteq> st"
    proof
      assume "shared c = st"
      then have "map in_gate (threads c) = replicate (length ts) False"
        using inv st(1) by (simp add: gate_inv_Idle(2))
      with ing i show False by simp
    qed
    with sh have run: "shared c = st\<lparr>once := Running\<rparr>" by simp
    obtain j where j: "j < length ts"
        "map in_gate (threads c) = (replicate (length ts) False)[j := True]"
      using inv notIdle by (auto simp: gate_inv_def)
    have "j = i"
      using ing j i by (cases "j = i") simp_all
    have req: "request st (ts ! i) = Some (ctx, s, x)"
    proof -
      have "map (request st) (threads c) ! i = map (request st) ts ! i"
        using inv by (simp add: gate_inv_def)
      then show ?thesis using i b(2) Drain(1) by simp
    qed
    have ex: "shared c' = executed st (ctx, s, x)"
      by (simp add: Drain(2) run executed_def)
    have same: "threads c' = threads c" "lock c' = lock c" by (simp_all add: Drain(2))
    show ?thesis
      using inv i j \<open>j = i\<close> req ex same by (auto simp: gate_inv_def)
  qed
qed

lemma fresh_flags: "fresh t \<Longrightarrow> \<not> in_gate t \<and> \<not> holds_lock t \<and> t \<noteq> Returned"
  by (cases t) simp_all

lemma gate_inv_start:
  assumes "list_all fresh ts"
  shows "gate_inv st ts (start st ts)"
proof -
  have f: "\<forall>t\<in>set ts. \<not> in_gate t \<and> \<not> holds_lock t \<and> t \<noteq> Returned"
    using assms fresh_flags by (auto simp: list_all_iff)
  have "map in_gate ts = replicate (length ts) False"
    using f by (simp add: map_replicate_const [symmetric] del: map_replicate_const cong: map_cong) 
  moreover have "True \<notin> set (map holds_lock ts)" using f by auto
  moreover have "Returned \<notin> set ts" using f by auto
  ultimately show ?thesis by (simp add: gate_inv_def start_def)
qed

lemma gate_inv_exec_from:
  assumes "gate_inv st ts c" "once st = Idle" "exited st = None"
  shows "gate_inv st ts (exec sch c)"
  using assms(1)
proof (induction sch arbitrary: c)
  case Nil
  then show ?case by simp
next
  case (Cons i sch)
  show ?case
  proof (cases "step i c")
    case None
    then show ?thesis using Cons by simp
  next
    case (Some c')
    then have "gate_inv st ts c'" using Cons.prems assms(2,3) by (metis gate_inv_step)
    then show ?thesis using Cons.IH Some by simp
  qed
qed

lemma gate_inv_exec:
  assumes "once st = Idle" "exited st = None" "list_all fresh ts"
  shows "gate_inv st ts (exec sch (start st ts))"
  using gate_inv_start [OF assms(3)] assms(1,2) by (rule gate_inv_exec_from)


lemma in_gate_index:
  assumes "map in_gate ths = (replicate n False)[i := True]" "length ths = n" "i < n" "j < n"
  shows "in_gate (ths ! j) = (j = i)"
proof -
  have "in_gate (ths ! j) = map in_gate ths ! j" using assms(2,4) by simp
  also have "\<dots> = (j = i)" using assms(3,4) by (simp add: assms(1) nth_list_update)
  finally show ?thesis .
qed

lemma no_in_gate_index:
  assumes "map in_gate ths = replicate n False" "length ths = n" "j < n"
  shows "\<not> in_gate (ths ! j)"
proof -
  have "in_gate (ths ! j) = map in_gate ths ! j" using assms(2,3) by simp
  then show ?thesis using assms(3) by (simp add: assms(1))
qed

lemma gate_inv_request:
  assumes "gate_inv st ts c" "i < length ts"
  shows "request st (threads c ! i) = request st (ts ! i)"
proof -
  have "map (request st) (threads c) ! i = map (request st) ts ! i"
    using assms(1) by (simp add: gate_inv_def)
  then show ?thesis using assms(2) gate_inv_length [OF assms(1)] by simp
qed

lemma in_gate_request: "in_gate t \<Longrightarrow> \<exists>r. request st t = Some r"
  by (cases t) simp_all

lemma gate_inv_cases:
  assumes inv: "gate_inv st ts c"
  shows "shared c = st \<and> (\<forall>j<length ts. \<not> in_gate (threads c ! j))
       \<or> (\<exists>i<length ts. \<exists>r. request st (ts ! i) = Some r
            \<and> (\<forall>j<length ts. in_gate (threads c ! j) = (j = i))
            \<and> (shared c = st\<lparr>once := Running\<rparr> \<or> shared c = executed st r))"
proof -
  note len = gate_inv_length [OF inv]
  consider (idle) "shared c = st" "map in_gate (threads c) = replicate (length ts) False"
    | (claimed) i where "i < length ts"
        "map in_gate (threads c) = (replicate (length ts) False)[i := True]"
        "shared c = st\<lparr>once := Running\<rparr> \<or> (\<exists>r. request st (ts ! i) = Some r \<and> shared c = executed st r)"
    using inv unfolding gate_inv_def by blast
  then show ?thesis
  proof cases
    case idle
    then show ?thesis using no_in_gate_index [OF idle(2) len] by simp
  next
    case (claimed i)
    have u: "\<forall>j<length ts. in_gate (threads c ! j) = (j = i)"
      using in_gate_index [OF claimed(2) len claimed(1)] by simp
    then have "in_gate (threads c ! i)" using claimed(1) by simp
    then obtain r where r: "request st (ts ! i) = Some r"
      using in_gate_request [of "threads c ! i" st] gate_inv_request [OF inv claimed(1)] by auto
    have "shared c = st\<lparr>once := Running\<rparr> \<or> shared c = executed st r"
      using claimed(3) r by auto
    with u r claimed(1) show ?thesis by blast
  qed
qed







lemma step_length: "step k c = Some c' \<Longrightarrow> length (threads c') = length (threads c)"
  by (erule step_SomeE) (simp_all add: update_thread_def)

lemma step_threads:
  assumes "step k c = Some c'"
  shows "threads c' = threads c \<and> in_gate (threads c ! k)
       \<or> (\<exists>t. threads c' = (threads c)[k := t] \<and> \<not> in_gate (threads c ! k))"
  by (rule step_SomeE [OF assms]) (auto simp: update_thread_def)

lemma in_gate_stays_step:
  assumes "step k c = Some c'" "in_gate (threads c ! j)"
  shows "threads c' ! j = threads c ! j"
  using step_threads [OF assms(1)]
proof
  assume "threads c' = threads c \<and> in_gate (threads c ! k)"
  then show ?thesis by simp
next
  assume "\<exists>t. threads c' = (threads c)[k := t] \<and> \<not> in_gate (threads c ! k)"
  then obtain t where t: "threads c' = (threads c)[k := t]" "\<not> in_gate (threads c ! k)"
    by blast
  then have "k \<noteq> j" using assms(2) by auto
  then show ?thesis by (simp add: t(1))
qed

lemma in_gate_stays:
  assumes "in_gate (threads c ! j)"
  shows "threads (exec sch c) ! j = threads c ! j"
  using assms
proof (induction sch arbitrary: c)
  case Nil
  then show ?case by simp
next
  case (Cons k sch)
  show ?case
  proof (cases "step k c")
    case None
    then show ?thesis using Cons by simp
  next
    case (Some c')
    have eq: "threads c' ! j = threads c ! j"
      using Some Cons.prems by (rule in_gate_stays_step)
    then have "in_gate (threads c' ! j)" using Cons.prems by simp
    then have "threads (exec sch c') ! j = threads c' ! j" by (rule Cons.IH)
    then show ?thesis using Some eq by simp
  qed
qed



text \<open>
  C7, as the code has it. Once the gate has been claimed, a thread that did not claim it
  never gets inside the gate, never returns from \<^verbatim>\<open>Exit\<close>, cannot move when it stands at
  \<^verbatim>\<open>once.Do\<close>, and none of its steps changes the package state (the handlers called, the exit
  status, the registry). When it stands at \<^verbatim>\<open>lock.Lock()\<close> while a thread is inside \<^verbatim>\<open>Exit\<close>,
  as the winner is when it came through \<^verbatim>\<open>Exit\<close>, then \<^verbatim>\<open>lock\<close> is held and it cannot move
  either (last conjunct). It waits, for \<^verbatim>\<open>lock\<close> or inside \<^verbatim>\<open>once.Do\<close>, until the process ends.
\<close>

theorem late_callers_wait:
  assumes "once st = Idle" and "exited st = None" and "list_all fresh ts"
    and "c = exec sch (start st ts)"
    and "once (shared c) \<noteq> Idle"
    and "i < length ts" and "\<not> in_gate (threads c ! i)"
    and "c' = exec sch' c"
  shows "\<not> in_gate (threads c' ! i)
       \<and> threads c' ! i \<noteq> Returned
       \<and> (\<forall>fr ctx s x. threads c' ! i \<noteq> AtGate fr ctx s x \<or> step i c' = None)
       \<and> (\<forall>c''. step i c' = Some c'' \<longrightarrow> shared c'' = shared c')
       \<and> (\<forall>w ctx exitCode.
             w < length ts \<and> holds_lock (threads c' ! w)
             \<and> threads c' ! i = CallExit ctx exitCode
             \<longrightarrow> lock c' \<and> step i c' = None)"
proof -
  have inv: "gate_inv st ts c"
    unfolding assms(4) using assms(1-3) by (rule gate_inv_exec)
  have inv': "gate_inv st ts c'"
    unfolding assms(8) using inv assms(1,2) by (rule gate_inv_exec_from)
  note len' = gate_inv_length [OF inv']
  have "shared c \<noteq> st" using assms(1,5) by auto
  then obtain w where w: "w < length ts" "in_gate (threads c ! w)"
    using gate_inv_cases [OF inv] by auto
  have "w \<noteq> i" using w(2) assms(7) by auto
  have "threads c' ! w = threads c ! w"
    unfolding assms(8) using w(2) by (rule in_gate_stays)
  then have w': "in_gate (threads c' ! w)" using w(2) by simp
  then have u: "\<forall>j<length ts. in_gate (threads c' ! j) = (j = w)"
    and run: "once (shared c') = Running"
    using gate_inv_cases [OF inv'] w(1) by (auto simp: executed_once)
  have 1: "\<not> in_gate (threads c' ! i)" using u assms(6) \<open>w \<noteq> i\<close> by simp
  have 2: "threads c' ! i \<noteq> Returned"
    using inv' assms(6) len' by (auto simp: gate_inv_def in_set_conv_nth)
  have 3: "threads c' ! i \<noteq> AtGate fr ctx s x \<or> step i c' = None" for fr ctx s x
    using run by (auto simp: step_def)
  have 4: "shared c'' = shared c'" if "step i c' = Some c''" for c''
    using that
  proof (cases rule: step_SomeE)
    case (Drain fr ctx s x)
    then show ?thesis using 1 by simp
  qed (use run in \<open>simp_all add: update_thread_def\<close>)
  have 5: "lock c' \<and> step i c' = None"
    if h: "w < length ts \<and> holds_lock (threads c' ! w) \<and> threads c' ! i = CallExit ctx exitCode"
    for w ctx exitCode
  proof -
    have "threads c' ! w \<in> set (threads c')" using h len' by simp
    then have "True \<in> set (map holds_lock (threads c'))" using h by force
    then have l: "lock c'" using inv' by (simp add: gate_inv_def)
    then have "step i c' = None" using h by (simp add: step_def)
    with l show ?thesis by simp
  qed
  show ?thesis using 1 2 3 4 5 by blast
qed

subsection \<open>Two runs\<close>





lemma runB_claimed: "exec [0, 0] (start (init :: (unit, nat) state) tsB)
     = \<lparr>shared = init\<lparr>once := Running\<rparr>, lock = True,
        threads = [InGate FromExit () noSigVal 0, CallExit () 1,
                   Listener () [(SIGINT, 1)] [SIGINT]]\<rparr>"
  by (simp add: start_def step_def update_thread_def tsB_def init_def)

lemma runB_waiting: "exec [2, 2, 1] \<lparr>shared = init\<lparr>once := Running\<rparr> :: (unit, nat) state, lock = True,
        threads = [InGate FromExit () noSigVal 0, CallExit () 1,
                   Listener () [(SIGINT, 1)] [SIGINT]]\<rparr>
     = \<lparr>shared = init\<lparr>once := Running\<rparr>, lock = True,
        threads = [InGate FromExit () noSigVal 0, CallExit () 1,
                   AtGate (FromListener [(SIGINT, 1)] []) () SIGINT 1]\<rparr>"
  by (simp add: step_def update_thread_def init_def SIGINT_def)

text \<open>
  The second program: the first \<^verbatim>\<open>Exit\<close> is inside the gate; the listener then finds SIGINT
  in its map and stands at \<^verbatim>\<open>once.Do\<close>, where it cannot move, and the second \<^verbatim>\<open>Exit\<close> stands
  at \<^verbatim>\<open>lock.Lock()\<close>, where it cannot move.
\<close>

theorem late_callers_wait_witness:
  "once (init :: (unit, nat) state) = Idle \<and> exited (init :: (unit, nat) state) = None
   \<and> list_all fresh tsB
   \<and> once (shared (exec [0, 0] (start (init :: (unit, nat) state) tsB))) \<noteq> Idle
   \<and> 2 < length tsB
   \<and> \<not> in_gate (threads (exec [0, 0] (start (init :: (unit, nat) state) tsB)) ! 2)
   \<and> threads (exec [2, 2, 1] (exec [0, 0] (start (init :: (unit, nat) state) tsB)))
        = [InGate FromExit () noSigVal 0, CallExit () 1,
           AtGate (FromListener [(SIGINT, 1)] []) () SIGINT 1]
   \<and> exited (shared (exec [2, 2, 1] (exec [0, 0] (start (init :: (unit, nat) state) tsB)))) = None
   \<and> \<not> in_gate (threads (exec [2, 2, 1] (exec [0, 0] (start (init :: (unit, nat) state) tsB))) ! 2)
   \<and> threads (exec [2, 2, 1] (exec [0, 0] (start (init :: (unit, nat) state) tsB))) ! 2 \<noteq> Returned
   \<and> step 2 (exec [2, 2, 1] (exec [0, 0] (start (init :: (unit, nat) state) tsB))) = None
   \<and> 1 < length tsB
   \<and> \<not> in_gate (threads (exec [0, 0] (start (init :: (unit, nat) state) tsB)) ! 1)
   \<and> 0 < length tsB
   \<and> holds_lock (threads (exec [2, 2, 1] (exec [0, 0] (start (init :: (unit, nat) state) tsB))) ! 0)
   \<and> lock (exec [2, 2, 1] (exec [0, 0] (start (init :: (unit, nat) state) tsB)))
   \<and> step 1 (exec [2, 2, 1] (exec [0, 0] (start (init :: (unit, nat) state) tsB))) = None"
proof -
  let ?c = "exec [0, 0] (start (init :: (unit, nat) state) tsB)"
  let ?c' = "exec [2, 2, 1] ?c"
  have h1: "once (init :: (unit, nat) state) = Idle"
    and h2: "exited (init :: (unit, nat) state) = None"
    by (simp_all add: init_def)
  have h3: "list_all fresh tsB" by (simp add: tsB_def)
  have h5: "once (shared ?c) \<noteq> Idle" unfolding runB_claimed by simp
  have h6: "2 < length tsB" by (simp add: tsB_def)
  have h7: "\<not> in_gate (threads ?c ! 2)" unfolding runB_claimed by simp
  have t: "threads ?c' = [InGate FromExit () noSigVal 0, CallExit () 1,
           AtGate (FromListener [(SIGINT, 1)] []) () SIGINT 1]"
    unfolding runB_claimed runB_waiting by simp
  have e: "exited (shared ?c') = None" unfolding runB_claimed runB_waiting by (simp add: init_def)
  note T = late_callers_wait [OF h1 h2 h3 refl h5 h6 h7 refl, of "[2, 2, 1]"]
  have a: "threads ?c' ! 2 = AtGate (FromListener [(SIGINT, 1)] []) () SIGINT 1"
    by (simp only: t) simp
  have "threads ?c' ! 2 \<noteq> AtGate (FromListener [(SIGINT, 1)] []) () SIGINT 1
        \<or> step 2 ?c' = None"
    by (rule T [THEN conjunct2, THEN conjunct2, THEN conjunct1, rule_format])
  with a have s: "step 2 ?c' = None" by blast
  note T1 = T [THEN conjunct1] and T2 = T [THEN conjunct2, THEN conjunct1]
  have k6: "1 < length tsB" by (simp add: tsB_def)
  have k7: "\<not> in_gate (threads ?c ! 1)" unfolding runB_claimed by simp
  have k0: "0 < length tsB" by (simp add: tsB_def)
  have kh: "holds_lock (threads ?c' ! 0)" by (simp only: t) simp
  have kc: "threads ?c' ! 1 = CallExit () 1" by (simp only: t) simp
  note U = late_callers_wait [OF h1 h2 h3 refl h5 k6 k7 refl, of "[2, 2, 1]"]
  have "lock ?c' \<and> step 1 ?c' = None"
    by (rule U [THEN conjunct2, THEN conjunct2, THEN conjunct2, THEN conjunct2, rule_format,
          OF conjI [OF k0 conjI [OF kh kc]]])
  then have l: "lock ?c'" and s1: "step 1 ?c' = None" by simp_all
  from h1 h2 h3 h5 h6 h7 t e T1 T2 s k6 k7 k0 kh l s1 show ?thesis
    by (intro conjI) assumption+
qed

text \<open>
  C7 as stated fails: while the first \<^verbatim>\<open>Exit\<close> is inside the gate and the process has not
  exited, a second \<^verbatim>\<open>Exit\<close> stands at \<^verbatim>\<open>lock.Lock()\<close> and cannot move; it has not returned.
\<close>

theorem second_Exit_waits_for_lock:
  "exec [0, 0] (start (init :: (unit, nat) state) [CallExit () 0, CallExit () 1])
     = \<lparr>shared = init\<lparr>once := Running\<rparr>, lock = True,
        threads = [InGate FromExit () noSigVal 0, CallExit () 1]\<rparr>
   \<and> exited (init\<lparr>once := Running\<rparr> :: (unit, nat) state) = None
   \<and> step 1 \<lparr>shared = init\<lparr>once := Running\<rparr> :: (unit, nat) state, lock = True,
        threads = [InGate FromExit () noSigVal 0, CallExit () 1]\<rparr> = None"
  by (simp add: start_def step_def update_thread_def init_def)

end
